theory Spec2Isabelle
  imports Main "HOL-Library.Word"
begin

unbundle bit_operations_syntax

section \<open>TinySolder firmware: data model\<close>

text \<open>
  The firmware runs on an ATtiny13A (avr-gcc): \<open>int\<close> and \<open>unsigned int\<close> are 16 bits
  wide, \<open>uint16_t\<close> is \<open>unsigned int\<close>, so arithmetic on a \<open>uint16_t\<close> and an \<open>int\<close>
  constant is done modulo \<open>2^16\<close>. Unsigned C arithmetic is the arithmetic of
  \<open>'a word\<close>; \<open>x << n\<close> is \<open>push_bit n x\<close> and \<open>x >> n\<close> is \<open>drop_bit n x\<close>.
\<close>

type_synonym uint8_t = "8 word"
type_synonym uint16_t = "16 word"
type_synonym uint32_t = "32 word"

subsection \<open>Pin definitions and calibration constants (TinySolder.ino, lines 69-85)\<close>

definition LED :: nat where "LED = 0"
definition HEATER :: nat where "HEATER = 1"
definition SWITCH :: nat where "SWITCH = 2"
definition TEMP :: nat where "TEMP = 3"
definition POTI :: nat where "POTI = 4"

text \<open>The calibration macros are untyped literals; they take the type of their context.\<close>

definition TEMPSLEEP :: "'a::len word" where "TEMPSLEEP = 100"
definition TEMP150 :: "'a::len word" where "TEMP150 = 118"
definition TEMP300 :: "'a::len word" where "TEMP300 = 221"
definition TEMP450 :: "'a::len word" where "TEMP450 = 324"

definition CYCLETIME :: nat where "CYCLETIME = 50"
definition TIME2SLEEP :: nat where "TIME2SLEEP = 300"
definition TIME2OFF :: nat where "TIME2OFF = 600"

text \<open>
  The two timer limits are written in the source as the constant expressions
  \<open>TIME2SLEEP/CYCLETIME*1000\<close> (line 199) and \<open>TIME2OFF/CYCLETIME*1000\<close> (line 137),
  evaluated in \<open>int\<close> and converted to \<open>unsigned int\<close> for the comparison with
  \<open>handleTimer\<close>.
\<close>

definition SLEEP_THRESHOLD :: uint16_t where
  "SLEEP_THRESHOLD = of_nat (TIME2SLEEP div CYCLETIME * 1000)"

definition OFF_THRESHOLD :: uint16_t where
  "OFF_THRESHOLD = of_nat (TIME2OFF div CYCLETIME * 1000)"

text \<open>\<open>pinADC(x)\<close>, line 96: \<open>((x)==2?1:((x)==3?3:((x)==4?2:0)))\<close>.\<close>

definition pinADC :: "nat \<Rightarrow> uint8_t" where
  "pinADC x = (if x = 2 then 1 else if x = 3 then 3 else if x = 4 then 2 else 0)"

subsection \<open>Setpoint mapping and low-pass filter\<close>

text \<open>
  TinySolder.ino v1.1, lines 184-185:
  \<^verbatim>\<open>if(poti < 512) setpoint = (uint32_t)(( poti        * (TEMP300 - TEMP150))>>9) + TEMP150;\<close>
  \<^verbatim>\<open>else           setpoint = (uint32_t)(((poti - 512) * (TEMP450 - TEMP300))>>9) + TEMP300;\<close>
  The product and the shift are 16-bit, the sum is 32-bit, the assignment to the
  \<open>uint16_t\<close> variable \<open>setpoint\<close> truncates.
\<close>

definition mapSetpoint :: "uint16_t \<Rightarrow> uint16_t" where
  "mapSetpoint poti =
     (if poti < 512
      then ucast ((ucast (drop_bit 9 (poti * (TEMP300 - TEMP150))) :: uint32_t) + TEMP150)
      else ucast ((ucast (drop_bit 9 ((poti - 512) * (TEMP450 - TEMP300))) :: uint32_t) + TEMP300))"

text \<open>
  SolderingStation_Tiny13_v1.0.ino, lines 84-85 (the same two lines are in the v1.0
  program at the end of TinySolder.ino, lines 330-331):
  \<^verbatim>\<open>if (poti < 512) setpoint = (uint32_t)poti * (TEMP300 - TEMP150) / 512 + TEMP150;\<close>
  \<^verbatim>\<open>else            setpoint = (uint32_t)(poti - 512) * (TEMP450 - TEMP300) / (511) + TEMP300;\<close>
  Here the whole right-hand side is 32-bit.
\<close>

definition mapSetpoint_v10 :: "uint16_t \<Rightarrow> uint16_t" where
  "mapSetpoint_v10 poti =
     (if poti < 512
      then ucast ((ucast poti :: uint32_t) * (TEMP300 - TEMP150) div 512 + TEMP150)
      else ucast ((ucast (poti - 512) :: uint32_t) * (TEMP450 - TEMP300) div 511 + TEMP300))"

text \<open>TinySolder.ino v1.1, line 191: \<^verbatim>\<open>smooth = ((smooth << 3) - smooth + temp) >> 3;\<close>\<close>

definition lowpass :: "uint16_t \<Rightarrow> uint16_t \<Rightarrow> uint16_t" where
  "lowpass smooth temp = drop_bit 3 (push_bit 3 smooth - smooth + temp)"

text \<open>SolderingStation_Tiny13_v1.0.ino, line 91: \<^verbatim>\<open>smooth = (smooth * 7 + temp) / 8;\<close>\<close>

definition lowpass_v10 :: "uint16_t \<Rightarrow> uint16_t \<Rightarrow> uint16_t" where
  "lowpass_v10 smooth temp = (smooth * 7 + temp) div 8"

text \<open>
  The filter update as the specification words it, on unbounded integers:
  \<open>new = (old*7 + raw) / 8\<close>, truncating. It is compared with the two source variants.
\<close>

definition lowpass_spec :: "nat \<Rightarrow> nat \<Rightarrow> nat" where
  "lowpass_spec old raw = (old * 7 + raw) div 8"

subsection \<open>Machine state\<close>

text \<open>
  The registers and variables the control core reads and writes. \<open>smooth\<close> is the local
  of \<open>main\<close> that survives from one cycle to the next; \<open>handleTimer\<close> is the global
  shared with the pin change interrupt. \<open>conversions\<close> counts the ADC conversions
  completed so far: the analog input is a function from the selected channel (\<open>ADMUX\<close>)
  and the conversion index to the value found in the \<open>ADC\<close> register.
\<close>

record mcu =
  DDRB :: uint8_t
  PORTB :: uint8_t
  ADMUX :: uint8_t
  handleTimer :: uint16_t
  smooth :: uint16_t
  conversions :: nat

type_synonym adc_input = "uint8_t \<Rightarrow> nat \<Rightarrow> uint16_t"

text \<open>
  Pin manipulation macros, lines 88-95. Writing a one to a bit of \<open>PINB\<close> toggles the
  same bit of \<open>PORTB\<close> on this controller, which is what \<open>pinToggle\<close> is used for.
\<close>

definition pinInput :: "nat \<Rightarrow> mcu \<Rightarrow> mcu" where
  "pinInput x s = s\<lparr>DDRB := DDRB s AND NOT (push_bit x 1)\<rparr>"

definition pinOutput :: "nat \<Rightarrow> mcu \<Rightarrow> mcu" where
  "pinOutput x s = s\<lparr>DDRB := DDRB s OR push_bit x 1\<rparr>"

definition pinLow :: "nat \<Rightarrow> mcu \<Rightarrow> mcu" where
  "pinLow x s = s\<lparr>PORTB := PORTB s AND NOT (push_bit x 1)\<rparr>"

definition pinHigh :: "nat \<Rightarrow> mcu \<Rightarrow> mcu" where
  "pinHigh x s = s\<lparr>PORTB := PORTB s OR push_bit x 1\<rparr>"

definition pinToggle :: "nat \<Rightarrow> mcu \<Rightarrow> mcu" where
  "pinToggle x s = s\<lparr>PORTB := PORTB s XOR push_bit x 1\<rparr>"

text \<open>The heater and indicator outputs are the \<open>HEATER\<close> and \<open>LED\<close> bits of \<open>PORTB\<close>.\<close>

definition heaterOn :: "mcu \<Rightarrow> bool" where
  "heaterOn s = bit (PORTB s) HEATER"

definition statusOn :: "mcu \<Rightarrow> bool" where
  "statusOn s = bit (PORTB s) LED"

subsection \<open>Analog sampler (\<open>ADC_read\<close>, lines 113-124)\<close>

text \<open>
  The loop \<^verbatim>\<open>for (uint8_t i=16; i; i--) { ...; result += ADC; }\<close> with its 8-bit
  counter and 16-bit accumulator; \<open>k\<close> is the index of the next conversion. Each pass
  sleeps until the conversion is complete and then reads the \<open>ADC\<close> register once. The
  writes to \<open>ADCSRA\<close> and the sleep mode only steer how the hardware converts; they are
  not part of the state.
\<close>

function ADC_loop :: "(nat \<Rightarrow> uint16_t) \<Rightarrow> uint8_t \<Rightarrow> nat \<Rightarrow> uint16_t \<Rightarrow> uint16_t \<times> nat" where
  "ADC_loop adc i k result =
     (if i \<noteq> 0 then ADC_loop adc (i - 1) (Suc k) (result + adc k) else (result, k))"
  by pat_completeness auto
termination
  by (relation "measure (\<lambda>(adc, i, k, result). unat i)")
     (simp_all add: unat_minus_one unat_gt_0)

declare ADC_loop.simps [simp del]

definition ADC_read :: "adc_input \<Rightarrow> uint8_t \<Rightarrow> mcu \<Rightarrow> uint16_t \<times> mcu" where
  "ADC_read adc port s =
     (let s1 = s\<lparr>ADMUX := port\<rparr>;
          (result, k) = ADC_loop (adc (ADMUX s1)) 16 (conversions s1) 0
      in (drop_bit 4 result, s1\<lparr>conversions := k\<rparr>))"

subsection \<open>Pin change interrupt (lines 152-154)\<close>

definition ISR_PCINT0 :: "mcu \<Rightarrow> mcu" where
  "ISR_PCINT0 s = s\<lparr>handleTimer := 0\<rparr>"

text \<open>
  The interrupt is asynchronous. Within one loop iteration it matters only whether it is
  served before the iteration reads \<open>handleTimer\<close> (\<open>Early\<close>: after the loop condition
  was evaluated, before the next statement that touches the timer) or after the
  iteration's last access to it (\<open>Late\<close>: during the sampling or the cycle delay).
\<close>

datatype irq = Early | Late

definition serve :: "irq option \<Rightarrow> irq \<Rightarrow> mcu \<Rightarrow> mcu" where
  "serve e p s = (if e = Some p then ISR_PCINT0 s else s)"

subsection \<open>Sleep loop (\<open>sleep\<close>, lines 134-149)\<close>

text \<open>
  One pass through the body of \<^verbatim>\<open>while(handleTimer) { ... }\<close>. The body
  first switches the heater off, then tests the timer against the off threshold; below
  it the timer is incremented, the temperature sampled and the heater switched on again
  when the sample is below \<open>TEMPSLEEP\<close>.
\<close>

definition sleep_body :: "adc_input \<Rightarrow> irq option \<Rightarrow> mcu \<Rightarrow> mcu" where
  "sleep_body adc e s0 =
     (let s1 = pinLow HEATER (serve e Early s0) in
      if handleTimer s1 < OFF_THRESHOLD then
        let s2 = s1\<lparr>handleTimer := handleTimer s1 + 1\<rparr>;
            s3 = serve e Late s2;
            (temp, s4) = ADC_read adc (pinADC TEMP) s3;
            s5 = (if temp < TEMPSLEEP then pinHigh HEATER s4 else s4)
        in pinToggle LED s5
      else serve e Late (pinInput LED s1))"

subsection \<open>Main loop (\<open>main\<close>, lines 181-201)\<close>

text \<open>
  Lines 192-196: the heater and the status indicator are set from the smoothed
  temperature and the setpoint (the heater was switched off in line 188).
\<close>

definition decide :: "uint16_t \<Rightarrow> uint16_t \<Rightarrow> mcu \<Rightarrow> mcu" where
  "decide sm setpoint s =
     (let s1 = (if sm < setpoint then pinHigh HEATER s else s);
          s2 = pinLow LED s1
      in if sm + 10 > setpoint \<and> setpoint + 10 > sm then pinHigh LED s2 else s2)"

text \<open>Lines 183-196: one pass of the control part of the main loop.\<close>

definition control :: "adc_input \<Rightarrow> mcu \<Rightarrow> mcu" where
  "control adc s0 =
     (let (poti, s1) = ADC_read adc (pinADC POTI) s0;
          setpoint = mapSetpoint poti;
          s2 = pinLow HEATER s1;
          (temp, s3) = ADC_read adc (pinADC TEMP) s2;
          s4 = s3\<lparr>smooth := lowpass (smooth s3) temp\<rparr>
      in decide (smooth s4) setpoint s4)"

text \<open>
  Control is either at the top of the main loop or at the condition of the sleep loop.
  Line 199, \<^verbatim>\<open>if(handleTimer++ > TIME2SLEEP/CYCLETIME*1000) sleep();\<close>, compares the
  value the timer had before the increment and decides which of the two comes next.
\<close>

datatype loc = MainLoop | SleepLoop

definition main_cycle :: "adc_input \<Rightarrow> irq option \<Rightarrow> mcu \<Rightarrow> loc \<times> mcu" where
  "main_cycle adc e s0 =
     (let s1 = control adc (serve e Early s0);
          t = handleTimer s1;
          s2 = s1\<lparr>handleTimer := t + 1\<rparr>;
          s3 = serve e Late s2
      in if t > SLEEP_THRESHOLD then (SleepLoop, s3) else (MainLoop, s3))"

text \<open>
  One loop iteration of the firmware. At the sleep loop's condition a zero timer leaves
  the loop (\<open>pinOutput(LED)\<close>, line 148) and returns to the main loop; an interrupt
  served on the way writes the timer once more.
\<close>

fun step :: "adc_input \<Rightarrow> irq option \<Rightarrow> loc \<times> mcu \<Rightarrow> loc \<times> mcu" where
  "step adc e (MainLoop, s) = main_cycle adc e s"
| "step adc e (SleepLoop, s) =
     (if handleTimer s \<noteq> 0 then (SleepLoop, sleep_body adc e s)
      else (MainLoop, (case e of None \<Rightarrow> pinOutput LED s | Some p \<Rightarrow> ISR_PCINT0 (pinOutput LED s))))"

fun run :: "adc_input \<Rightarrow> irq option list \<Rightarrow> loc \<times> mcu \<Rightarrow> loc \<times> mcu" where
  "run adc [] c = c"
| "run adc (e # es) c = run adc es (step adc e c)"

text \<open>
  Start-up, lines 165-178: registers and the global timer are zero after reset, the pins
  are set up, and the first sample of the temperature channel initialises \<open>smooth\<close>.
\<close>

definition reset :: mcu where
  "reset = \<lparr>DDRB = 0, PORTB = 0, ADMUX = 0, handleTimer = 0, smooth = 0, conversions = 0\<rparr>"

definition startup :: "adc_input \<Rightarrow> loc \<times> mcu" where
  "startup adc =
     (let s1 = pinHigh SWITCH (pinOutput HEATER (pinOutput LED reset));
          (result, s2) = ADC_read adc (pinADC TEMP) s1
      in (MainLoop, s2\<lparr>smooth := result\<rparr>))"

text \<open>The filter fed \<open>n\<close> times with the same raw sample.\<close>

definition settle :: "uint16_t \<Rightarrow> nat \<Rightarrow> uint16_t \<Rightarrow> uint16_t" where
  "settle raw n sm = ((\<lambda>x. lowpass x raw) ^^ n) sm"

section \<open>Arithmetic of the machine operations\<close>

subsection \<open>Conversions between the integer widths\<close>

lemma unat_ucast_up: "unat (ucast (w :: uint16_t) :: uint32_t) = unat w"
proof -
  have "unat w < 2 ^ 16" using unsigned_less [of w] by simp
  then show ?thesis by (simp add: unsigned_ucast_eq take_bit_nat_eq_self)
qed

lemma unat_ucast_down: "unat (w :: uint32_t) < 65536 \<Longrightarrow> unat (ucast w :: uint16_t) = unat w"
  by (simp add: unsigned_ucast_eq take_bit_nat_eq_self)

lemma unat_mul103:
  assumes "unat (x :: uint16_t) \<le> 511"
  shows "unat (x * 103) = unat x * 103"
  using assms by (simp add: unat_word_ariths)

lemma unat_shift9: "unat (drop_bit 9 (x :: uint16_t)) = unat x div 512"
  by (simp add: unat_drop_bit_eq) (simp add: drop_bit_eq_div)

lemma unat_plus32:
  assumes "unat (x :: uint32_t) \<le> 65535" "c \<le> 65535"
  shows "unat (x + of_nat c) = unat x + c"
  using assms by (simp add: unat_word_ariths unat_of_nat)

subsection \<open>The setpoint mapping on natural numbers\<close>

lemma unat_mapSetpoint:
  assumes "unat poti \<le> 1023"
  shows "unat (mapSetpoint poti) =
     (if unat poti < 512 then unat poti * 103 div 512 + 118
      else (unat poti - 512) * 103 div 512 + 221)"
proof (cases "poti < 512")
  case True
  then have lt: "unat poti < 512" by (simp add: word_less_nat_alt)
  let ?q = "drop_bit 9 (poti * 103)"
  have q: "unat ?q = unat poti * 103 div 512"
    using lt by (simp add: unat_shift9 unat_mul103)
  have "unat ((ucast ?q :: uint32_t) + 118) = unat poti * 103 div 512 + 118"
    using unat_plus32 [of "ucast ?q" 118] lt by (simp add: unat_ucast_up q)
  moreover have "unat poti * 103 div 512 + 118 < 65536" using lt by simp
  ultimately have "unat (ucast ((ucast ?q :: uint32_t) + 118) :: uint16_t) = unat poti * 103 div 512 + 118"
    by (simp add: unat_ucast_down)
  then show ?thesis using True lt
    by (simp add: mapSetpoint_def TEMP150_def TEMP300_def)
next
  case False
  then have ge: "512 \<le> poti" by simp
  then have ge': "512 \<le> unat poti" by (simp add: word_le_nat_alt)
  have d: "unat (poti - 512) = unat poti - 512" using ge by (simp add: unat_sub)
  let ?q = "drop_bit 9 ((poti - 512) * 103)"
  have "unat (poti - 512) \<le> 511" using assms d by simp
  then have "unat ((poti - 512) * 103) = (unat poti - 512) * 103"
    by (simp only: unat_mul103 d)
  then have q: "unat ?q = (unat poti - 512) * 103 div 512"
    by (simp only: unat_shift9)
  have "unat ((ucast ?q :: uint32_t) + 221) = (unat poti - 512) * 103 div 512 + 221"
    using unat_plus32 [of "ucast ?q" 221] assms q by (simp add: unat_ucast_up)
  moreover have "(unat poti - 512) * 103 div 512 + 221 < 65536" using assms by simp
  ultimately have "unat (ucast ((ucast ?q :: uint32_t) + 221) :: uint16_t) = (unat poti - 512) * 103 div 512 + 221"
    by (simp add: unat_ucast_down)
  then show ?thesis using False ge'
    by (simp add: mapSetpoint_def TEMP450_def TEMP300_def)
qed

lemma unat_mapSetpoint_v10:
  assumes "unat poti \<le> 1023"
  shows "unat (mapSetpoint_v10 poti) =
     (if unat poti < 512 then unat poti * 103 div 512 + 118
      else (unat poti - 512) * 103 div 511 + 221)"
proof (cases "poti < 512")
  case True
  then have lt: "unat poti < 512" by (simp add: word_less_nat_alt)
  let ?p = "ucast poti :: uint32_t"
  have p: "unat ?p = unat poti" by (rule unat_ucast_up)
  have m: "unat (?p * 103) = unat poti * 103"
    using lt by (simp add: unat_word_ariths p)
  have q: "unat (?p * 103 div 512) = unat poti * 103 div 512"
    by (simp add: unat_div m)
  have "unat (?p * 103 div 512 + 118) = unat poti * 103 div 512 + 118"
    using unat_plus32 [of "?p * 103 div 512" 118] lt by (simp add: q)
  moreover have "unat poti * 103 div 512 + 118 < 65536" using lt by simp
  ultimately have "unat (ucast (?p * 103 div 512 + 118) :: uint16_t) = unat poti * 103 div 512 + 118"
    by (simp add: unat_ucast_down)
  then show ?thesis using True lt
    by (simp add: mapSetpoint_v10_def TEMP150_def TEMP300_def)
next
  case False
  then have ge: "512 \<le> poti" by simp
  then have ge': "512 \<le> unat poti" by (simp add: word_le_nat_alt)
  have d: "unat (poti - 512) = unat poti - 512" using ge by (simp add: unat_sub)
  let ?p = "ucast (poti - 512) :: uint32_t"
  have p: "unat ?p = unat poti - 512" by (simp add: unat_ucast_up d)
  have m: "unat (?p * 103) = (unat poti - 512) * 103"
    using assms by (simp only: unat_word_ariths p) simp
  have q: "unat (?p * 103 div 511) = (unat poti - 512) * 103 div 511"
    by (simp add: unat_div m)
  have "unat (?p * 103 div 511 + 221) = (unat poti - 512) * 103 div 511 + 221"
    using unat_plus32 [of "?p * 103 div 511" 221] assms by (simp add: q)
  moreover have "(unat poti - 512) * 103 div 511 + 221 < 65536" using assms by simp
  ultimately have "unat (ucast (?p * 103 div 511 + 221) :: uint16_t) = (unat poti - 512) * 103 div 511 + 221"
    by (simp add: unat_ucast_down)
  then show ?thesis using False ge'
    by (simp add: mapSetpoint_v10_def TEMP450_def TEMP300_def)
qed

lemma mapSetpoint_values:
  "mapSetpoint 0 = 118" "mapSetpoint 511 = 220" "mapSetpoint 512 = 221" "mapSetpoint 1023 = 323"
  "mapSetpoint_v10 0 = 118" "mapSetpoint_v10 511 = 220" "mapSetpoint_v10 512 = 221" "mapSetpoint_v10 1023 = 324"
  by (simp_all add: mapSetpoint_def mapSetpoint_v10_def TEMP150_def TEMP300_def TEMP450_def)

lemma mapSetpoint_nat_mono:
  fixes a b :: nat
  assumes "a \<le> b" "b \<le> 1023"
  shows "(if a < 512 then a * 103 div 512 + 118 else (a - 512) * 103 div 512 + 221)
       \<le> (if b < 512 then b * 103 div 512 + 118 else (b - 512) * 103 div 512 + 221)"
  using assms by (auto intro!: div_le_mono) 

lemma mapSetpoint_v10_nat_mono:
  fixes a b :: nat
  assumes "a \<le> b" "b \<le> 1023"
  shows "(if a < 512 then a * 103 div 512 + 118 else (a - 512) * 103 div 511 + 221)
       \<le> (if b < 512 then b * 103 div 512 + 118 else (b - 512) * 103 div 511 + 221)"
  using assms by (auto intro!: div_le_mono)

subsection \<open>The filter on natural numbers\<close>

lemma lowpass_variants: "lowpass x y = lowpass_v10 x y"
proof -
  have "push_bit 3 x - x = x * 7" by (simp add: push_bit_eq_mult)
  then show ?thesis by (simp add: lowpass_def lowpass_v10_def drop_bit_eq_div mult.commute)
qed

lemma unat_lowpass:
  assumes "unat sm \<le> 1023" "unat t \<le> 1023"
  shows "unat (lowpass sm t) = (unat sm * 7 + unat t) div 8"
proof -
  have "unat (sm * 7 + t) = unat sm * 7 + unat t"
    using assms by (simp add: unat_word_ariths)
  then show ?thesis
    by (simp add: lowpass_variants lowpass_v10_def unat_div)
qed

subsection \<open>The sampler's accumulation loop\<close>

lemma ADC_loop_sum:
  "unat result + 1023 * unat i < 65536 \<Longrightarrow> (\<forall>j<unat i. unat (adc (k + j)) \<le> 1023) \<Longrightarrow>
     unat (fst (ADC_loop adc i k result)) = unat result + (\<Sum>j<unat i. unat (adc (k + j)))
     \<and> snd (ADC_loop adc i k result) = k + unat i"
proof (induction adc i k result rule: ADC_loop.induct)
  case (1 adc i k result)
  show ?case
  proof (cases "i = 0")
    case True
    then show ?thesis by (simp add: ADC_loop.simps)
  next
    case False
    then have pos: "0 < unat i" by (simp add: unat_gt_0)
    then have i1: "unat (i - 1) = unat i - 1" using False by (simp add: unat_minus_one)
    have a0: "unat (adc k) \<le> 1023" using "1.prems"(2) pos by force
    have r: "unat (result + adc k) = unat result + unat (adc k)"
      using a0 "1.prems"(1) pos by (simp add: unat_word_ariths)
    have b: "unat (result + adc k) + 1023 * unat (i - 1) < 65536"
      using r a0 "1.prems"(1) pos i1 by (cases "unat i") simp_all
    have c: "\<forall>j<unat (i - 1). unat (adc (Suc k + j)) \<le> 1023"
    proof (intro allI impI)
      fix j assume "j < unat (i - 1)"
      then have "Suc j < unat i" using i1 by simp
      then have "unat (adc (k + Suc j)) \<le> 1023" using "1.prems"(2) by blast
      then show "unat (adc (Suc k + j)) \<le> 1023" by simp
    qed
    have s: "(\<Sum>j<unat i. unat (adc (k + j))) = unat (adc k) + (\<Sum>j<unat (i - 1). unat (adc (Suc k + j)))"
    proof -
      obtain m where m: "unat i = Suc m" using pos by (cases "unat i") auto
      have "(\<Sum>j<Suc m. unat (adc (k + j))) = unat (adc (k + 0)) + (\<Sum>j<m. unat (adc (k + Suc j)))"
        by (rule sum.lessThan_Suc_shift)
      then show ?thesis using m i1 by simp
    qed
    from "1.IH" [OF False b c] r s i1 pos False show ?thesis
      by (simp add: ADC_loop.simps [of adc i])
  qed
qed

lemma ADC_read_mean:
  assumes "\<forall>j<16. unat (adc port (conversions s + j)) \<le> 1023"
  shows "unat (fst (ADC_read adc port s)) = (\<Sum>j<16. unat (adc port (conversions s + j))) div 16"
    and "snd (ADC_read adc port s) = s\<lparr>ADMUX := port, conversions := conversions s + 16\<rparr>"
  using ADC_loop_sum [of 0 16 "adc port" "conversions s"] assms
  by (simp_all add: ADC_read_def Let_def split_beta drop_bit_eq_div unat_div)

lemma ADC_loop_index: "snd (ADC_loop adc i k result) = k + unat i"
proof (induction adc i k result rule: ADC_loop.induct)
  case (1 adc i k result)
  show ?case
  proof (cases "i = 0")
    case True
    then show ?thesis by (simp add: ADC_loop.simps)
  next
    case False
    then have "0 < unat i" by (simp add: unat_gt_0)
    moreover have "unat (i - 1) = unat i - 1" using False by (simp add: unat_minus_one)
    ultimately show ?thesis using "1.IH" [OF False] False
      by (simp add: ADC_loop.simps [of adc i])
  qed
qed

lemma ADC_read_state:
  "snd (ADC_read adc port s) = s\<lparr>ADMUX := port, conversions := conversions s + 16\<rparr>"
  using ADC_loop_index [of "adc port" 16 "conversions s" 0]
  by (simp add: ADC_read_def Let_def split_beta)

subsection \<open>The output bits\<close>

lemma heaterOn_simps:
  "heaterOn (pinLow HEATER s) = False"
  "heaterOn (pinHigh HEATER s) = True"
  "heaterOn (pinLow LED s) = heaterOn s"
  "heaterOn (pinHigh LED s) = heaterOn s"
  "heaterOn (pinToggle LED s) = heaterOn s"
  "heaterOn (pinInput x s) = heaterOn s"
  "heaterOn (pinOutput x s) = heaterOn s"
  by (simp_all add: heaterOn_def pinLow_def pinHigh_def pinToggle_def pinInput_def pinOutput_def
      HEATER_def LED_def bit_simps)

lemma statusOn_simps:
  "statusOn (pinLow LED s) = False"
  "statusOn (pinHigh LED s) = True"
  "statusOn (pinLow HEATER s) = statusOn s"
  "statusOn (pinHigh HEATER s) = statusOn s"
  by (simp_all add: statusOn_def pinLow_def pinHigh_def HEATER_def LED_def bit_simps)

subsection \<open>Frame conditions and the loops without interrupts\<close>

lemma thresholds: "SLEEP_THRESHOLD = 6000" "OFF_THRESHOLD = 12000"
  by (simp_all add: SLEEP_THRESHOLD_def OFF_THRESHOLD_def TIME2SLEEP_def TIME2OFF_def CYCLETIME_def)

lemma pin_frame:
  "handleTimer (pinLow x s) = handleTimer s" "handleTimer (pinHigh x s) = handleTimer s"
  "handleTimer (pinToggle x s) = handleTimer s" "handleTimer (pinInput x s) = handleTimer s"
  "handleTimer (pinOutput x s) = handleTimer s"
  "smooth (pinLow x s) = smooth s" "smooth (pinHigh x s) = smooth s"
  "smooth (pinToggle x s) = smooth s" "smooth (pinInput x s) = smooth s"
  "smooth (pinOutput x s) = smooth s"
  "conversions (pinLow x s) = conversions s" "conversions (pinHigh x s) = conversions s"
  "conversions (pinToggle x s) = conversions s" "conversions (pinInput x s) = conversions s"
  "conversions (pinOutput x s) = conversions s"
  by (simp_all add: pinLow_def pinHigh_def pinToggle_def pinInput_def pinOutput_def)

lemma decide_frame:
  "handleTimer (decide a b s) = handleTimer s" "smooth (decide a b s) = smooth s"
  "conversions (decide a b s) = conversions s"
  by (simp_all add: decide_def Let_def pin_frame)

lemma control_frame:
  "handleTimer (control adc s) = handleTimer s"
  "conversions (control adc s) = conversions s + 32"
  "smooth (control adc s) =
     lowpass (smooth s) (fst (ADC_read adc (pinADC TEMP) (pinLow HEATER (snd (ADC_read adc (pinADC POTI) s)))))"
  by (simp_all add: control_def Let_def split_beta decide_frame pin_frame ADC_read_state)

lemma main_cycle_quiet:
  "main_cycle adc None s =
     (if SLEEP_THRESHOLD < handleTimer s then SleepLoop else MainLoop,
      (control adc s)\<lparr>handleTimer := handleTimer s + 1\<rparr>)"
  by (simp add: main_cycle_def serve_def Let_def control_frame)

lemma quiet_main_run:
  "unat (handleTimer s) + n \<le> 6001 \<Longrightarrow>
     fst (run adc (replicate n None) (MainLoop, s)) = MainLoop
     \<and> unat (handleTimer (snd (run adc (replicate n None) (MainLoop, s)))) = unat (handleTimer s) + n"
proof (induction n arbitrary: s)
  case 0
  then show ?case by simp
next
  case (Suc n)
  let ?s1 = "(control adc s)\<lparr>handleTimer := handleTimer s + 1\<rparr>"
  have le: "unat (handleTimer s) \<le> 6000" using Suc.prems by simp
  then have st: "step adc None (MainLoop, s) = (MainLoop, ?s1)"
    by (simp add: main_cycle_quiet thresholds word_less_nat_alt)
  have t1: "unat (handleTimer ?s1) = unat (handleTimer s) + 1"
    using le by (simp add: unat_word_ariths)
  then have "unat (handleTimer ?s1) + n \<le> 6001" using Suc.prems by simp
  from Suc.IH [OF this] t1 show ?case by (simp add: st del: step.simps)
qed

lemma run_append: "run adc (es @ fs) c = run adc fs (run adc es c)"
  by (induction es arbitrary: c) simp_all

lemma quiet_main_run_enters_sleep:
  assumes "handleTimer s = 0"
  shows "fst (run adc (replicate 6002 None) (MainLoop, s)) = SleepLoop"
    and "handleTimer (snd (run adc (replicate 6002 None) (MainLoop, s))) = 6002"
proof -
  let ?c = "run adc (replicate 6001 None) (MainLoop, s)"
  have "unat (handleTimer s) + 6001 \<le> 6001" using assms by simp
  from quiet_main_run [OF this, of adc]
  have l: "fst ?c = MainLoop" and t: "unat (handleTimer (snd ?c)) = 6001"
    using assms by simp_all
  have t': "handleTimer (snd ?c) = 6001"
    using t by (simp add: word_eq_iff_unsigned [where ?'a = nat])
  have "(6002 :: nat) = Suc 6001" by simp
  then have "replicate 6002 None = None # replicate 6001 (None :: irq option)"
    by (simp only: replicate.simps)
  then have "replicate 6002 None = replicate 6001 None @ [None :: irq option]"
    by (simp only: replicate_append_same)
  then have r: "run adc (replicate 6002 None) (MainLoop, s) = step adc None ?c"
    by (simp add: run_append del: step.simps)
  have c: "?c = (MainLoop, snd ?c)" using l by (cases ?c) simp
  have "step adc None ?c = (SleepLoop, (control adc (snd ?c))\<lparr>handleTimer := 6002\<rparr>)"
    by (subst c) (simp add: main_cycle_quiet thresholds t')
  then show "fst (run adc (replicate 6002 None) (MainLoop, s)) = SleepLoop"
    and "handleTimer (snd (run adc (replicate 6002 None) (MainLoop, s))) = 6002"
    by (simp_all add: r)
qed

lemma control_outputs:
  "heaterOn (control adc s) = (smooth (control adc s) < mapSetpoint (fst (ADC_read adc (pinADC POTI) s)))"
  "statusOn (control adc s) =
     (smooth (control adc s) + 10 > mapSetpoint (fst (ADC_read adc (pinADC POTI) s))
      \<and> mapSetpoint (fst (ADC_read adc (pinADC POTI) s)) + 10 > smooth (control adc s))"
  by (simp_all add: control_def Let_def split_beta decide_def heaterOn_def statusOn_def
      pinLow_def pinHigh_def ADC_read_state HEATER_def LED_def bit_simps)

lemma ISR_PCINT0_frame:
  "handleTimer (ISR_PCINT0 s) = 0" "DDRB (ISR_PCINT0 s) = DDRB s" "PORTB (ISR_PCINT0 s) = PORTB s"
  "ADMUX (ISR_PCINT0 s) = ADMUX s" "smooth (ISR_PCINT0 s) = smooth s"
  "conversions (ISR_PCINT0 s) = conversions s"
  by (simp_all add: ISR_PCINT0_def)

lemma sleep_body_off:
  assumes "OFF_THRESHOLD \<le> handleTimer s"
  shows "sleep_body adc None s = pinInput LED (pinLow HEATER s)"
  using assms by (simp add: sleep_body_def serve_def Let_def pin_frame not_less [symmetric])

lemma step_off:
  assumes "OFF_THRESHOLD \<le> handleTimer s"
  shows "step adc None (SleepLoop, s) = (SleepLoop, pinInput LED (pinLow HEATER s))"
proof -
  have "12000 \<le> unat (handleTimer s)" using assms by (simp add: thresholds word_le_nat_alt)
  then have "handleTimer s \<noteq> 0" by auto
  then show ?thesis using assms by (simp add: sleep_body_off)
qed

lemma off_run:
  assumes "OFF_THRESHOLD \<le> handleTimer s"
  shows "fst (run adc (replicate n None) (SleepLoop, s)) = SleepLoop
     \<and> handleTimer (snd (run adc (replicate n None) (SleepLoop, s))) = handleTimer s
     \<and> conversions (snd (run adc (replicate n None) (SleepLoop, s))) = conversions s
     \<and> smooth (snd (run adc (replicate n None) (SleepLoop, s))) = smooth s
     \<and> (heaterOn (snd (run adc (replicate n None) (SleepLoop, s))) \<longrightarrow> n = 0 \<and> heaterOn s)"
  using assms
proof (induction n arbitrary: s)
  case 0
  then show ?case by simp
next
  case (Suc n)
  let ?s1 = "pinInput LED (pinLow HEATER s)"
  have "OFF_THRESHOLD \<le> handleTimer ?s1" using Suc.prems by (simp add: pin_frame)
  from Suc.IH [OF this] show ?case
    by (simp add: step_off [OF Suc.prems] pin_frame heaterOn_simps del: step.simps)
qed

lemma late_irq_leaves_sleep:
  assumes "handleTimer s \<noteq> 0"
  shows "fst (step adc (Some Late) (SleepLoop, s)) = SleepLoop"
    and "handleTimer (snd (step adc (Some Late) (SleepLoop, s))) = 0"
    and "fst (step adc e (step adc (Some Late) (SleepLoop, s))) = MainLoop"
proof -
  show a: "fst (step adc (Some Late) (SleepLoop, s)) = SleepLoop" using assms by simp
  show b: "handleTimer (snd (step adc (Some Late) (SleepLoop, s))) = 0"
    using assms
    by (simp add: sleep_body_def serve_def Let_def split_beta pin_frame ISR_PCINT0_frame ADC_read_state)
  obtain s' where s': "step adc (Some Late) (SleepLoop, s) = (SleepLoop, s')" "handleTimer s' = 0"
    using a b by (cases "step adc (Some Late) (SleepLoop, s)") auto
  show "fst (step adc e (step adc (Some Late) (SleepLoop, s))) = MainLoop"
    by (simp only: s') (simp add: s'(2))
qed

subsection \<open>Range of the smoothed temperature\<close>

lemma ADC_read_bound:
  assumes "\<forall>ch k. unat (adc ch k) \<le> 1023"
  shows "unat (fst (ADC_read adc port s)) \<le> 1023"
proof -
  have "(\<Sum>j<16. unat (adc port (conversions s + j))) \<le> (\<Sum>j<(16::nat). 1023)"
    using assms by (intro sum_mono) simp
  then have "(\<Sum>j<16. unat (adc port (conversions s + j))) \<le> 16368" by simp
  moreover have "unat (fst (ADC_read adc port s)) = (\<Sum>j<16. unat (adc port (conversions s + j))) div 16"
    using assms by (intro ADC_read_mean(1)) simp
  ultimately show ?thesis by simp
qed

lemma lowpass_bound:
  assumes "unat sm \<le> 1023" "unat t \<le> 1023"
  shows "unat (lowpass sm t) \<le> 1023"
  using assms by (simp add: unat_lowpass)

lemma serve_frame:
  "smooth (serve e p s) = smooth s" "conversions (serve e p s) = conversions s"
  "PORTB (serve e p s) = PORTB s" "DDRB (serve e p s) = DDRB s" "ADMUX (serve e p s) = ADMUX s"
  by (simp_all add: serve_def ISR_PCINT0_frame)

lemma smooth_sleep_body: "smooth (sleep_body adc e s) = smooth s"
  by (simp add: sleep_body_def serve_def Let_def split_beta pin_frame ISR_PCINT0_frame ADC_read_state)

lemma smooth_main_cycle:
  assumes "\<forall>ch k. unat (adc ch k) \<le> 1023" "unat (smooth s) \<le> 1023"
  shows "unat (smooth (snd (main_cycle adc e s))) \<le> 1023"
proof -
  have "unat (smooth (control adc (serve e Early s))) \<le> 1023"
    using assms
    by (simp add: control_frame serve_frame lowpass_bound ADC_read_bound)
  then show ?thesis
    by (simp add: main_cycle_def Let_def serve_frame)
qed

lemma smooth_step:
  assumes "\<forall>ch k. unat (adc ch k) \<le> 1023" "unat (smooth (snd c)) \<le> 1023"
  shows "unat (smooth (snd (step adc e c))) \<le> 1023"
proof (cases c)
  case (Pair l s)
  show ?thesis
  proof (cases l)
    case MainLoop
    then show ?thesis using assms Pair smooth_main_cycle [of adc s e] by simp
  next
    case SleepLoop
    then show ?thesis using assms(2) Pair
      by (simp add: smooth_sleep_body pin_frame ISR_PCINT0_frame split: option.split)
  qed
qed

lemma smooth_run:
  assumes "\<forall>ch k. unat (adc ch k) \<le> 1023" "unat (smooth (snd c)) \<le> 1023"
  shows "unat (smooth (snd (run adc es c))) \<le> 1023"
  using assms(2)
proof (induction es arbitrary: c)
  case Nil
  then show ?case by simp
next
  case (Cons e es)
  have "unat (smooth (snd (step adc e c))) \<le> 1023"
    using smooth_step [OF assms(1) Cons.prems] .
  from Cons.IH [OF this] show ?case by simp
qed

lemma smooth_startup:
  assumes "\<forall>ch k. unat (adc ch k) \<le> 1023"
  shows "unat (smooth (snd (startup adc))) \<le> 1023"
  using ADC_read_bound [OF assms] by (simp add: startup_def Let_def split_beta)

lemma filter_exact:
  fixes sm t :: uint16_t
  assumes "unat sm \<le> 1023" "unat t \<le> 1023"
  shows "unat (push_bit 3 sm) = 8 * unat sm"
    and "unat (push_bit 3 sm - sm + t) = 7 * unat sm + unat t"
    and "unat (sm * 7 + t) = 7 * unat sm + unat t"
proof -
  show "unat (push_bit 3 sm) = 8 * unat sm"
    using assms by (simp add: push_bit_eq_mult unat_word_ariths)
  show 3: "unat (sm * 7 + t) = 7 * unat sm + unat t"
    using assms by (simp add: unat_word_ariths)
  have eq: "push_bit 3 sm - sm + t = sm * 7 + t" by (simp add: push_bit_eq_mult)
  show "unat (push_bit 3 sm - sm + t) = 7 * unat sm + unat t" unfolding eq by (rule 3)
qed

subsection \<open>The filter under a constant input\<close>

lemma spec_above:
  assumes "r \<le> x"
  shows "r \<le> lowpass_spec x r" "lowpass_spec x r \<le> x" "r < x \<Longrightarrow> lowpass_spec x r < x"
  using assms by (simp_all add: lowpass_spec_def)

lemma spec_below:
  assumes "x + 7 \<le> r"
  shows "lowpass_spec x r + 7 \<le> r" "x \<le> lowpass_spec x r" "x + 7 < r \<Longrightarrow> x < lowpass_spec x r"
  using assms by (simp_all add: lowpass_spec_def)

lemma spec_fixed:
  assumes "x \<le> r" "r < x + 8"
  shows "lowpass_spec x r = x"
  using assms by (simp add: lowpass_spec_def)

lemma settle_Suc: "settle raw (Suc n) sm = lowpass (settle raw n sm) raw"
  by (simp add: settle_def)

lemma settle_0: "settle raw 0 sm = sm"
  by (simp add: settle_def)

lemma settle_bound:
  assumes "unat sm \<le> 1023" "unat raw \<le> 1023"
  shows "unat (settle raw n sm) \<le> 1023"
  by (induction n) (simp_all add: settle_0 settle_Suc assms lowpass_bound)

lemma unat_settle_Suc:
  assumes "unat sm \<le> 1023" "unat raw \<le> 1023"
  shows "unat (settle raw (Suc n) sm) = lowpass_spec (unat (settle raw n sm)) (unat raw)"
  using unat_lowpass [OF settle_bound [OF assms, of n] assms(2)]
  by (simp add: settle_Suc lowpass_spec_def)

lemma settle_above:
  assumes "unat sm \<le> 1023" "unat raw \<le> 1023" "unat raw \<le> unat sm"
  shows "unat raw \<le> unat (settle raw n sm)
       \<and> unat (settle raw n sm) - unat raw \<le> (unat sm - unat raw) - n"
proof (induction n)
  case 0
  then show ?case using assms(3) by (simp add: settle_0)
next
  case (Suc n)
  let ?x = "unat (settle raw n sm)"
  have ge: "unat raw \<le> ?x" using Suc.IH by simp
  have s: "unat (settle raw (Suc n) sm) = lowpass_spec ?x (unat raw)"
    by (rule unat_settle_Suc [OF assms(1,2)])
  show ?case
  proof (cases "unat raw < ?x")
    case True
    then show ?thesis using spec_above(1,3) [OF ge] Suc.IH by (simp add: s)
  next
    case False
    then have "?x = unat raw" using ge by simp
    then show ?thesis using spec_above(1,2) [OF ge] by (simp add: s)
  qed
qed

lemma settle_below:
  assumes "unat sm \<le> 1023" "unat raw \<le> 1023" "unat sm + 7 \<le> unat raw"
  shows "unat (settle raw n sm) + 7 \<le> unat raw
       \<and> (unat raw - 7) - unat (settle raw n sm) \<le> (unat raw - 7 - unat sm) - n"
proof (induction n)
  case 0
  then show ?case using assms(3) by (simp add: settle_0)
next
  case (Suc n)
  let ?x = "unat (settle raw n sm)"
  have le: "?x + 7 \<le> unat raw" using Suc.IH by simp
  have s: "unat (settle raw (Suc n) sm) = lowpass_spec ?x (unat raw)"
    by (rule unat_settle_Suc [OF assms(1,2)])
  show ?case
  proof (cases "?x + 7 < unat raw")
    case True
    then show ?thesis using spec_below(1,3) [OF le] Suc.IH by (simp add: s)
  next
    case False
    then have "?x + 7 = unat raw" using le by simp
    then show ?thesis using spec_below(1,2) [OF le] by (simp add: s)
  qed
qed

lemma settle_fixed:
  assumes "unat sm \<le> 1023" "unat raw \<le> 1023" "unat sm \<le> unat raw" "unat raw < unat sm + 8"
  shows "settle raw n sm = sm"
proof (induction n)
  case 0
  show ?case by (simp add: settle_0)
next
  case (Suc n)
  have "unat (lowpass sm raw) = unat sm"
    using unat_lowpass [OF assms(1,2)] spec_fixed [OF assms(3,4)] by (simp add: lowpass_spec_def)
  then have "lowpass sm raw = sm" by (simp add: word_eq_iff_unsigned [where ?'a = nat])
  then show ?case using Suc.IH by (simp add: settle_Suc)
qed

lemma settle_stuck: "settle 7 n 0 = 0"
  by (induction n) (simp_all add: settle_0 settle_Suc lowpass_def)

section \<open>Setpoint mapper\<close>

text \<open>
  Claim C1, as stated, asks for the divisor 511 in the upper segment and for
  \<open>mapSetpoint(1023) = 324\<close>. The v1.1 firmware shifts by 9 in both segments, so its
  upper segment divides by 512 and the largest setpoint is 323.
\<close>

theorem mapSetpoint_1023_counterexample:
  "mapSetpoint 1023 = 323 \<and> unat (mapSetpoint 1023) \<noteq> (1023 - 512) * (324 - 221) div 511 + 221"
  by (simp add: mapSetpoint_def TEMP150_def TEMP300_def TEMP450_def)

text \<open>
  Claim C1, amended. For every \<open>rawPoti\<close> in 0..1023 the v1.1 firmware computes
  \<open>rawPoti * (221 - 118) / 512 + 118\<close> below 512 (strictly; 512 takes the upper segment)
  and \<open>(rawPoti - 512) * (324 - 221) / 512 + 221\<close> from 512 on, with truncating
  division, so the values at 0, 511, 512 and 1023 are 118, 220, 221 and 323. The v1.0
  sources compute the same lower segment and divide by 511 in the upper one, which gives
  118, 220, 221 and 324.
\<close>

theorem mapSetpoint_piecewise:
  assumes "unat poti \<le> 1023"
  shows "unat (mapSetpoint poti) =
           (if unat poti < 512 then unat poti * (221 - 118) div 512 + 118
            else (unat poti - 512) * (324 - 221) div 512 + 221)
       \<and> unat (mapSetpoint_v10 poti) =
           (if unat poti < 512 then unat poti * (221 - 118) div 512 + 118
            else (unat poti - 512) * (324 - 221) div 511 + 221)
       \<and> mapSetpoint 0 = 118 \<and> mapSetpoint 511 = 220 \<and> mapSetpoint 512 = 221 \<and> mapSetpoint 1023 = 323
       \<and> mapSetpoint_v10 0 = 118 \<and> mapSetpoint_v10 511 = 220 \<and> mapSetpoint_v10 512 = 221
       \<and> mapSetpoint_v10 1023 = 324"
  using unat_mapSetpoint [OF assms] unat_mapSetpoint_v10 [OF assms]
  by (simp add: mapSetpoint_values)

theorem mapSetpoint_piecewise_witness:
  "unat (1000 :: uint16_t) \<le> 1023 \<and> unat (mapSetpoint 1000) = 319 \<and> unat (mapSetpoint_v10 1000) = 319"
  using mapSetpoint_piecewise [of 1000] by simp

text \<open>
  Claim C7. The setpoint mapping is monotonically non-decreasing over 0..1023,
  including across the breakpoint between 511 and 512 (shown for the v1.1 and the v1.0
  form).
\<close>

theorem mapSetpoint_mono:
  assumes "p1 \<le> p2" "p2 \<le> 1023"
  shows "mapSetpoint p1 \<le> mapSetpoint p2 \<and> mapSetpoint_v10 p1 \<le> mapSetpoint_v10 p2"
proof -
  have b: "unat p1 \<le> unat p2" "unat p2 \<le> 1023" "unat p1 \<le> 1023"
    using assms by (simp_all add: word_le_nat_alt)
  have "unat (mapSetpoint p1) \<le> unat (mapSetpoint p2)"
    by (simp only: unat_mapSetpoint [OF b(3)] unat_mapSetpoint [OF b(2)]
        mapSetpoint_nat_mono [OF b(1,2)])
  moreover have "unat (mapSetpoint_v10 p1) \<le> unat (mapSetpoint_v10 p2)"
    by (simp only: unat_mapSetpoint_v10 [OF b(3)] unat_mapSetpoint_v10 [OF b(2)]
        mapSetpoint_v10_nat_mono [OF b(1,2)])
  ultimately show ?thesis by (simp add: word_le_nat_alt)
qed

theorem mapSetpoint_mono_witness:
  "(511 :: uint16_t) \<le> 512 \<and> (512 :: uint16_t) \<le> 1023 \<and> mapSetpoint 511 \<le> mapSetpoint 512
    \<and> mapSetpoint 511 = 220 \<and> mapSetpoint 512 = 221"
  using mapSetpoint_mono [of 511 512] by (simp add: mapSetpoint_values)

section \<open>Analog sampler\<close>

text \<open>
  Claim C6. \<open>ADC_read\<close> takes exactly 16 consecutive conversions of the selected
  channel and returns their sum shifted right by 4: for any 16 readings in 0..1023 the
  result is the truncated mean \<open>floor(sum / 16)\<close>, never rounded (16 readings that sum
  to 17 give 1).
\<close>

theorem ADC_read_truncated_mean:
  assumes "\<forall>j<16. unat (adc port (conversions s + j)) \<le> 1023"
  shows "unat (fst (ADC_read adc port s)) = (\<Sum>j<16. unat (adc port (conversions s + j))) div 16
     \<and> conversions (snd (ADC_read adc port s)) = conversions s + 16"
  using ADC_read_mean [of adc port s] assms by simp

theorem ADC_read_truncated_mean_witness:
  "(\<Sum>j<16. unat ((\<lambda>ch k. if k = 0 then 2 else 1 :: uint16_t) (3 :: uint8_t) (conversions reset + j))) = 17
   \<and> unat (fst (ADC_read (\<lambda>ch k. if k = 0 then 2 else 1) 3 reset)) = 1
   \<and> conversions (snd (ADC_read (\<lambda>ch k. if k = 0 then 2 else 1) 3 reset)) = 16"
proof -
  let ?adc = "\<lambda>(ch :: uint8_t) (k :: nat). if k = 0 then 2 else 1 :: uint16_t"
  have h: "\<forall>j<16. unat (?adc 3 (conversions reset + j)) \<le> 1023" by simp
  have s: "(\<Sum>j<16. unat (?adc 3 (conversions reset + j))) = 17"
    by (simp add: reset_def lessThan_nat_numeral)
  have c: "conversions reset = 0" by (simp add: reset_def)
  show ?thesis using ADC_read_truncated_mean [of ?adc 3 reset] h s c by simp
qed

section \<open>Heater controller\<close>

text \<open>
  Claim C2. After the heater was switched off (line 188), lines 192-196 leave the heater
  output equal to \<open>smoothed < setpoint\<close> (strict: off when equal) and the status output
  equal to \<open>(smoothed + 10 > setpoint) AND (setpoint + 10 > smoothed)\<close>, for every pair of
  16-bit values in the machine's arithmetic; as long as neither value exceeds 65525 the
  two sums do not wrap and the comparison is the one on unbounded integers. In
  particular 220/221 gives heater on and status on, 200/221 heater on and status off,
  231/221 status off.
\<close>

theorem decide_outputs:
  "heaterOn (decide sm sp (pinLow HEATER s)) = (sm < sp)
   \<and> statusOn (decide sm sp (pinLow HEATER s)) = (sm + 10 > sp \<and> sp + 10 > sm)
   \<and> (unat sm \<le> 65525 \<and> unat sp \<le> 65525 \<longrightarrow>
        statusOn (decide sm sp (pinLow HEATER s)) = (unat sm + 10 > unat sp \<and> unat sp + 10 > unat sm))
   \<and> heaterOn (decide 220 221 (pinLow HEATER s)) \<and> statusOn (decide 220 221 (pinLow HEATER s))
   \<and> heaterOn (decide 200 221 (pinLow HEATER s)) \<and> \<not> statusOn (decide 200 221 (pinLow HEATER s))
   \<and> \<not> statusOn (decide 231 221 (pinLow HEATER s))"
proof -
  have out: "heaterOn (decide a b (pinLow HEATER s)) = (a < b)"
       "statusOn (decide a b (pinLow HEATER s)) = (a + 10 > b \<and> b + 10 > a)" for a b
    by (simp_all add: decide_def Let_def heaterOn_simps statusOn_simps)
  have "(sm + 10 > sp \<and> sp + 10 > sm) = (unat sm + 10 > unat sp \<and> unat sp + 10 > unat sm)"
    if "unat sm \<le> 65525" "unat sp \<le> 65525"
  proof -
    have "unat (sm + 10) = unat sm + 10" "unat (sp + 10) = unat sp + 10"
      using that by (simp_all add: unat_word_ariths)
    then show ?thesis by (simp add: word_less_nat_alt)
  qed
  then show ?thesis by (simp add: out)
qed

theorem decide_outputs_witness:
  "unat (300 :: uint16_t) \<le> 65525 \<and> unat (309 :: uint16_t) \<le> 65525
   \<and> statusOn (decide 300 309 (pinLow HEATER reset)) \<and> heaterOn (decide 300 309 (pinLow HEATER reset))
   \<and> \<not> statusOn (decide 310 300 (pinLow HEATER reset)) \<and> \<not> heaterOn (decide 300 300 (pinLow HEATER reset))"
  using decide_outputs [of 300 309 reset] decide_outputs [of 310 300 reset] decide_outputs [of 300 300 reset]
  by simp

section \<open>Temperature filter\<close>

text \<open>
  Claim C8. The shift form \<open>((smooth << 3) - smooth + temp) >> 3\<close> of v1.1 and the
  arithmetic form \<open>(smooth * 7 + temp) / 8\<close> of v1.0 are the same function on 16-bit
  values, and for \<open>smooth\<close> and \<open>temp\<close> in 0..1023 both compute the specification's
  update \<open>(old*7 + raw) / 8\<close> with truncating division.
\<close>

theorem lowpass_refines_spec:
  "lowpass sm t = lowpass_v10 sm t \<and>
   (unat sm \<le> 1023 \<and> unat t \<le> 1023 \<longrightarrow>
      unat (lowpass sm t) = lowpass_spec (unat sm) (unat t) \<and>
      unat (lowpass_v10 sm t) = lowpass_spec (unat sm) (unat t))"
  using unat_lowpass [of sm t] by (simp add: lowpass_variants lowpass_spec_def)

theorem lowpass_refines_spec_witness:
  "unat (1000 :: uint16_t) \<le> 1023 \<and> unat (517 :: uint16_t) \<le> 1023 \<and>
   lowpass 1000 517 = lowpass_v10 1000 517 \<and>
   unat (lowpass 1000 517) = lowpass_spec 1000 517 \<and> lowpass_spec 1000 517 = 939"
  using lowpass_refines_spec [of 1000 517] by (simp add: lowpass_spec_def)

text \<open>
  Claim C5, as stated, has the smoothed value reach the constant raw input from every
  start. Truncation stops the filter below the input: from 0 with input 7 the update
  returns 0 again, and no number of updates reaches 7.
\<close>

theorem settle_counterexample: "lowpass 0 7 = 0 \<and> \<not> (\<exists>n. settle 7 n 0 = 7)"
  by (simp add: settle_stuck) (simp add: lowpass_def)

text \<open>
  Claim C5, amended. For every start and every constant raw input in 0..1023, after at
  most 1023 updates the smoothed value has reached a fixed point of the update and stays
  there: exactly the raw value when the start is at or above it, and otherwise the larger
  of the start and \<open>raw - 7\<close>, that is up to 7 below the raw value. A smoothed value equal
  to the raw input is left unchanged.
\<close>

theorem settle_limit:
  assumes "unat sm \<le> 1023" "unat raw \<le> 1023" "1023 \<le> n"
  shows "unat (settle raw n sm) =
           (if unat raw \<le> unat sm then unat raw else max (unat sm) (unat raw - 7))
       \<and> lowpass (settle raw n sm) raw = settle raw n sm
       \<and> lowpass raw raw = raw"
proof -
  let ?l = "if unat raw \<le> unat sm then unat raw else max (unat sm) (unat raw - 7)"
  have lim: "unat (settle raw m sm) = ?l" if "1023 \<le> m" for m
  proof -
    consider (above) "unat raw \<le> unat sm" | (below) "unat sm + 7 \<le> unat raw"
      | (mid) "unat sm < unat raw" "unat raw < unat sm + 7" by linarith
    then show ?thesis
    proof cases
      case above
      then show ?thesis using settle_above [OF assms(1,2) above, of m] assms(1) that by simp
    next
      case below
      have "unat (settle raw m sm) + 7 \<le> unat raw"
        and "unat raw - 7 - unat (settle raw m sm) \<le> unat raw - 7 - unat sm - m"
        using settle_below [OF assms(1,2) below, of m] by simp_all
      moreover have "unat raw - 7 - unat sm - m = 0" using assms(2) that by simp
      ultimately have "unat (settle raw m sm) = unat raw - 7" by arith
      then show ?thesis using below by simp
    next
      case mid
      then have "settle raw m sm = sm" using settle_fixed [OF assms(1,2), of m] by simp
      then show ?thesis using mid by simp
    qed
  qed
  have "unat (settle raw (Suc n) sm) = unat (settle raw n sm)"
    using lim [of n] lim [of "Suc n"] assms(3) by simp
  then have fp: "lowpass (settle raw n sm) raw = settle raw n sm"
    by (simp add: settle_Suc word_eq_iff_unsigned [where ?'a = nat])
  have "unat (lowpass raw raw) = unat raw"
    using unat_lowpass [OF assms(2,2)] by simp
  then have "lowpass raw raw = raw" by (simp add: word_eq_iff_unsigned [where ?'a = nat])
  then show ?thesis using lim [OF assms(3)] fp by simp
qed

theorem settle_limit_witness:
  "unat (settle 100 1023 1000) = 100 \<and> unat (settle 100 1023 0) = 93 \<and> unat (settle 100 1023 97) = 97
   \<and> lowpass 100 100 = 100 \<and> lowpass 93 100 = 93"
  using settle_limit [of 1000 100 1023] settle_limit [of 0 100 1023] settle_limit [of 97 100 1023]
  by (simp add: lowpass_def)

section \<open>Activity timer and power states\<close>

text \<open>
  Claim C3, as stated, has a main-loop cycle that begins with the timer equal to the sleep
  threshold enter the sleep loop. Line 199 compares with \<open>>\<close>, so that cycle stays in
  the main loop.
\<close>

theorem sleep_entry_counterexample:
  "handleTimer (reset\<lparr>handleTimer := 6000\<rparr>) = SLEEP_THRESHOLD
   \<and> fst (step (\<lambda>ch k. 0) None (MainLoop, reset\<lparr>handleTimer := 6000\<rparr>)) = MainLoop"
  by (simp add: main_cycle_quiet thresholds)

text \<open>
  Claim C3, amended. The sleep threshold is 6000 cycles. A main-loop cycle without an
  activity event that begins with the timer at most 6000 (the threshold itself included)
  stays in the main loop and increments the timer by one; a cycle that begins with the
  timer above 6000 (first at 6001) increments it and enters the sleep loop. Counted from
  a zero timer, the first 6001 cycles stay in the main loop and the 6002nd enters the
  sleep loop.
\<close>

theorem sleep_entry:
  "unat SLEEP_THRESHOLD = 6000
   \<and> (unat (handleTimer s) \<le> 6000 \<longrightarrow>
        fst (step adc None (MainLoop, s)) = MainLoop
        \<and> unat (handleTimer (snd (step adc None (MainLoop, s)))) = unat (handleTimer s) + 1)
   \<and> (6000 < unat (handleTimer s) \<longrightarrow>
        fst (step adc None (MainLoop, s)) = SleepLoop
        \<and> handleTimer (snd (step adc None (MainLoop, s))) = handleTimer s + 1)
   \<and> (handleTimer s = 0 \<and> n \<le> 6001 \<longrightarrow>
        fst (run adc (replicate n None) (MainLoop, s)) = MainLoop
        \<and> unat (handleTimer (snd (run adc (replicate n None) (MainLoop, s)))) = n)
   \<and> (handleTimer s = 0 \<longrightarrow>
        fst (run adc (replicate 6002 None) (MainLoop, s)) = SleepLoop)"
proof -
  have lt: "(SLEEP_THRESHOLD < handleTimer s) = (6000 < unat (handleTimer s))"
    by (simp add: thresholds word_less_nat_alt)
  have inc: "unat (handleTimer s + 1) = unat (handleTimer s) + 1" if "unat (handleTimer s) \<le> 6000"
    using that by (simp add: unat_word_ariths)
  have one: "unat SLEEP_THRESHOLD = 6000
   \<and> (unat (handleTimer s) \<le> 6000 \<longrightarrow>
        fst (step adc None (MainLoop, s)) = MainLoop
        \<and> unat (handleTimer (snd (step adc None (MainLoop, s)))) = unat (handleTimer s) + 1)
   \<and> (6000 < unat (handleTimer s) \<longrightarrow>
        fst (step adc None (MainLoop, s)) = SleepLoop
        \<and> handleTimer (snd (step adc None (MainLoop, s))) = handleTimer s + 1)"
    using inc by (simp add: main_cycle_quiet lt) (simp add: thresholds)
  have many: "fst (run adc (replicate n None) (MainLoop, s)) = MainLoop
        \<and> unat (handleTimer (snd (run adc (replicate n None) (MainLoop, s)))) = n"
    if "handleTimer s = 0" "n \<le> 6001"
    using quiet_main_run [of s n adc] that by simp
  show ?thesis using one many quiet_main_run_enters_sleep(1) [of s adc] by blast
qed

theorem sleep_entry_witness:
  "fst (step (\<lambda>ch k. 0) None (MainLoop, reset\<lparr>handleTimer := 5999\<rparr>)) = MainLoop
   \<and> fst (step (\<lambda>ch k. 0) None (MainLoop, reset\<lparr>handleTimer := 6000\<rparr>)) = MainLoop
   \<and> handleTimer (snd (step (\<lambda>ch k. 0) None (MainLoop, reset\<lparr>handleTimer := 6000\<rparr>))) = 6001
   \<and> fst (step (\<lambda>ch k. 0) None (MainLoop, reset\<lparr>handleTimer := 6001\<rparr>)) = SleepLoop
   \<and> fst (run (\<lambda>ch k. 0) (replicate 6001 None) (MainLoop, reset)) = MainLoop
   \<and> fst (run (\<lambda>ch k. 0) (replicate 6002 None) (MainLoop, reset)) = SleepLoop"
proof -
  have z: "handleTimer reset = 0" by (simp add: reset_def)
  show ?thesis
    using sleep_entry [of "reset\<lparr>handleTimer := 5999\<rparr>" "\<lambda>ch k. 0" 0]
      sleep_entry [of "reset\<lparr>handleTimer := 6000\<rparr>" "\<lambda>ch k. 0" 0]
      sleep_entry [of "reset\<lparr>handleTimer := 6001\<rparr>" "\<lambda>ch k. 0" 0]
      sleep_entry [of reset "\<lambda>ch k. 0" 6001] z
    by (simp add: word_eq_iff_unsigned [where ?'a = nat] del: step.simps run.simps)
qed

text \<open>
  Claim C4. Once the timer has reached the off threshold, every further pass through the
  sleep loop without an activity event stays in the sleep loop, leaves the heater output
  off whatever the analog input is (no conversion is even started), and does not
  increment the timer.
\<close>

theorem off_state_persists:
  assumes "OFF_THRESHOLD \<le> handleTimer s"
  shows "fst (run adc (replicate (Suc n) None) (SleepLoop, s)) = SleepLoop
     \<and> \<not> heaterOn (snd (run adc (replicate (Suc n) None) (SleepLoop, s)))
     \<and> handleTimer (snd (run adc (replicate (Suc n) None) (SleepLoop, s))) = handleTimer s
     \<and> conversions (snd (run adc (replicate (Suc n) None) (SleepLoop, s))) = conversions s"
  using off_run [OF assms, of adc "Suc n"] by blast

theorem off_state_persists_witness:
  "OFF_THRESHOLD \<le> handleTimer (pinHigh HEATER (reset\<lparr>handleTimer := 12000\<rparr>))
   \<and> heaterOn (pinHigh HEATER (reset\<lparr>handleTimer := 12000\<rparr>))
   \<and> \<not> heaterOn (snd (run (\<lambda>ch k. 0) [None, None, None] (SleepLoop, pinHigh HEATER (reset\<lparr>handleTimer := 12000\<rparr>))))
   \<and> handleTimer (snd (run (\<lambda>ch k. 0) [None, None, None] (SleepLoop, pinHigh HEATER (reset\<lparr>handleTimer := 12000\<rparr>)))) = 12000"
proof -
  let ?s = "pinHigh HEATER (reset\<lparr>handleTimer := 12000\<rparr>)"
  have h: "OFF_THRESHOLD \<le> handleTimer ?s" by (simp add: thresholds pin_frame)
  have r: "replicate (Suc 2) None = [None, None, None :: irq option]" by (simp add: numeral_2_eq_2)
  show ?thesis
    using off_state_persists [OF h, of "\<lambda>ch k. 0" 2] h
    by (simp only: r) (simp add: pin_frame heaterOn_simps)
qed

text \<open>
  Claim C9 at a concrete input: the sleep loop has found the timer at 7000, the pin change
  interrupt is served before the body reads the timer, and the body's increment then
  leaves the timer at 1, so the next check of the loop condition does not leave the loop.
\<close>

theorem sleep_wakeup_lost:
  "handleTimer (reset\<lparr>handleTimer := 7000\<rparr>) \<noteq> 0
   \<and> fst (step (\<lambda>ch k. 0) (Some Early) (SleepLoop, reset\<lparr>handleTimer := 7000\<rparr>)) = SleepLoop
   \<and> handleTimer (snd (step (\<lambda>ch k. 0) (Some Early) (SleepLoop, reset\<lparr>handleTimer := 7000\<rparr>))) = 1
   \<and> fst (step (\<lambda>ch k. 0) None (step (\<lambda>ch k. 0) (Some Early) (SleepLoop, reset\<lparr>handleTimer := 7000\<rparr>))) = SleepLoop"
  by (simp add: sleep_body_def serve_def Let_def split_beta pin_frame ISR_PCINT0_frame thresholds
      ADC_read_state)

section \<open>Range of the filter state\<close>

text \<open>
  Claim C10. If every conversion result is in 0..1023, the smoothed temperature is in
  0..1023 after start-up and after any number of loop iterations, with or without
  interrupts: the 16-sample sum is at most 16368 and fits in 16 bits, and in every
  reachable state a filter update with a sample in 0..1023 has intermediates
  \<open>smooth << 3\<close>, \<open>(smooth << 3) - smooth + temp\<close> and \<open>smooth * 7 + temp\<close> that do not
  wrap, so the update is exactly \<open>(7 * smooth + temp) div 8\<close> and stays in range.
\<close>

theorem smooth_in_range:
  assumes "\<forall>ch k. unat (adc ch k) \<le> 1023"
  shows "unat (smooth (snd (startup adc))) \<le> 1023
     \<and> unat (smooth (snd (run adc es (startup adc)))) \<le> 1023
     \<and> unat (fst (ADC_loop (adc port) 16 k 0)) \<le> 16368
     \<and> (unat t \<le> 1023 \<longrightarrow>
          unat (push_bit 3 (smooth (snd (run adc es (startup adc))))) = 8 * unat (smooth (snd (run adc es (startup adc))))
          \<and> unat (push_bit 3 (smooth (snd (run adc es (startup adc)))) - smooth (snd (run adc es (startup adc))) + t)
              = 7 * unat (smooth (snd (run adc es (startup adc)))) + unat t
          \<and> unat (smooth (snd (run adc es (startup adc))) * 7 + t)
              = 7 * unat (smooth (snd (run adc es (startup adc)))) + unat t
          \<and> unat (lowpass (smooth (snd (run adc es (startup adc)))) t)
              = (7 * unat (smooth (snd (run adc es (startup adc)))) + unat t) div 8
          \<and> unat (lowpass (smooth (snd (run adc es (startup adc)))) t) \<le> 1023)"
proof -
  let ?sm = "smooth (snd (run adc es (startup adc)))"
  have 0: "unat (smooth (snd (startup adc))) \<le> 1023" by (rule smooth_startup [OF assms])
  have 1: "unat ?sm \<le> 1023" by (rule smooth_run [OF assms 0])
  have "(\<Sum>j<16. unat (adc port (k + j))) \<le> (\<Sum>j<(16::nat). 1023)"
    using assms by (intro sum_mono) simp
  moreover have "unat (fst (ADC_loop (adc port) 16 k 0)) = (\<Sum>j<16. unat (adc port (k + j)))"
    using ADC_loop_sum [of 0 16 "adc port" k] assms by simp
  ultimately have 2: "unat (fst (ADC_loop (adc port) 16 k 0)) \<le> 16368" by simp
  have 3: "unat (lowpass ?sm t) = (7 * unat ?sm + unat t) div 8" if "unat t \<le> 1023"
    using unat_lowpass [OF 1 that] by (simp add: mult.commute)
  show ?thesis
    using 0 1 2 by (auto simp: 3 filter_exact [OF 1] dest: lowpass_bound [OF 1])
qed

theorem smooth_in_range_witness:
  "unat (smooth (snd (startup (\<lambda>ch k. 1023)))) = 1023
   \<and> unat (smooth (snd (run (\<lambda>ch k. 1023) [None, Some Early] (startup (\<lambda>ch k. 1023))))) \<le> 1023
   \<and> unat (fst (ADC_loop ((\<lambda>ch k. 1023) (3 :: uint8_t)) 16 0 0)) = 16368
   \<and> unat (lowpass (smooth (snd (run (\<lambda>ch k. 1023) [None, Some Early] (startup (\<lambda>ch k. 1023))))) 1023) \<le> 1023"
proof -
  have h: "\<forall>(ch :: uint8_t) (k :: nat). unat ((\<lambda>ch k. 1023 :: uint16_t) ch k) \<le> 1023" by simp
  have l: "ADC_loop (\<lambda>k. 1023) 16 0 0 = (16368, 16)" by (simp add: ADC_loop.simps)
  have s: "smooth (snd (startup (\<lambda>ch k. 1023))) = 1023"
    by (simp add: startup_def ADC_read_def Let_def reset_def pinHigh_def pinOutput_def l)
  show ?thesis
    using smooth_in_range [where adc = "\<lambda>ch k. 1023" and es = "[None, Some Early]" and port = 3
        and k = 0 and t = 1023] h
    by (simp add: l s)
qed

end
